theory Spec2Isabelle
  imports Main
begin

section \<open>Data model\<close>

text \<open>
  The hook \<^verbatim>\<open>useCrystalBallSolver({ n, secretF })\<close> of \<^verbatim>\<open>src/hooks/useCrystalBallSolver.ts\<close>
  keeps one \<^verbatim>\<open>SolverState\<close> (\<^verbatim>\<open>src/types/solver.ts\<close>). The floor numbers and
  counters are JavaScript numbers holding integers, far inside the range where doubles are
  exact; they are modelled as \<open>int\<close>, and \<^verbatim>\<open>number | null\<close> as \<open>int option\<close>. Every call
  of an operation sees the committed state and yields the next one, so \<^verbatim>\<open>setState\<close>
  is explicit state passing.
\<close>

record SolverState =
  sequence :: "int list"
  drops :: "int list"
  foundFloor :: "int option"
  totalDrops :: int
  finished :: bool

text \<open>The object returned by \<^verbatim>\<open>step()\<close>; the optional fields are absent as \<open>None\<close>.\<close>

record StepResult =
  action :: string
  floorTested :: "int option"
  broke :: "bool option"

text \<open>The argument of \<^verbatim>\<open>useState\<close>: the state before any effect has run.\<close>

definition initial_state :: SolverState where
  "initial_state =
     \<lparr>sequence = [], drops = [], foundFloor = None, totalDrops = 0, finished = False\<rparr>"

text \<open>The invariant of the drop counter: \<^verbatim>\<open>totalDrops == drops.length\<close>.\<close>

definition drops_counted :: "SolverState \<Rightarrow> bool" where
  "drops_counted state = (totalDrops state = int (length (drops state)))"

text \<open>\<^verbatim>\<open>reset()\<close> overwrites the state, whatever it was.\<close>

definition reset :: "SolverState \<Rightarrow> SolverState" where
  "reset s =
     \<lparr>sequence = [], drops = [], foundFloor = None, totalDrops = 0, finished = False\<rparr>"

section \<open>The planner: \<open>k\<close> and the probe sequence\<close>

text \<open>
  \<^verbatim>\<open>let kLocal = 0; while ((kLocal * (kLocal + 1)) / 2 < n) kLocal++; return kLocal;\<close>
  The product of two consecutive integers is even, so the quotient of the source is the
  integer \<open>div\<close>.
\<close>

function kLocal_loop :: "int \<Rightarrow> int \<Rightarrow> int" where
  "kLocal_loop n kLocal =
     (if (kLocal * (kLocal + 1)) div 2 < n then kLocal_loop n (kLocal + 1) else kLocal)"
  by pat_completeness auto

lemma triangle_ge_self: "(kLocal::int) \<le> (kLocal * (kLocal + 1)) div 2"
proof (cases "0 \<le> kLocal")
  case True
  have "kLocal * 2 \<le> kLocal * (kLocal + 1)"
  proof (cases "kLocal = 0")
    case True
    then show ?thesis by simp
  next
    case False
    with \<open>0 \<le> kLocal\<close> have "2 \<le> kLocal + 1" by simp
    with \<open>0 \<le> kLocal\<close> show ?thesis by (rule mult_left_mono[rotated])
  qed
  then have "(kLocal * 2) div 2 \<le> (kLocal * (kLocal + 1)) div 2"
    by (rule zdiv_mono1) simp
  then show ?thesis by simp
next
  case False
  then have "kLocal \<le> 0" "kLocal + 1 \<le> 0" by simp_all
  then have "0 \<le> kLocal * (kLocal + 1)" by (rule mult_nonpos_nonpos)
  then have "0 \<le> (kLocal * (kLocal + 1)) div 2" by simp
  with False show ?thesis by simp
qed

termination kLocal_loop
proof (relation "measure (\<lambda>(n, kLocal). nat (n - kLocal))")
  show "wf (measure (\<lambda>(n, kLocal). nat (n - kLocal)))" by simp
next
  fix n kLocal :: int
  assume "(kLocal * (kLocal + 1)) div 2 < n"
  with triangle_ge_self[of kLocal] have "kLocal < n" by simp
  then show "((n, kLocal + 1), (n, kLocal)) \<in> measure (\<lambda>(n, kLocal). nat (n - kLocal))"
    by simp
qed

declare kLocal_loop.simps [simp del]

definition k_of :: "int \<Rightarrow> int" where
  "k_of n = kLocal_loop n 0"

text \<open>
  \<^verbatim>\<open>while (current < n && step > 0) { seq.push(current); step -= 1; current += step; }\<close>
\<close>

function seq_loop :: "int \<Rightarrow> int \<Rightarrow> int \<Rightarrow> int list \<Rightarrow> int list" where
  "seq_loop n stp current seq =
     (if current < n \<and> stp > 0
      then seq_loop n (stp - 1) (current + (stp - 1)) (seq @ [current])
      else seq)"
  by pat_completeness auto
termination
  by (relation "measure (\<lambda>(n, stp, current, seq). nat stp)") auto

declare seq_loop.simps [simp del]

text \<open>The differences of neighbouring entries of a sequence.\<close>

definition successive_gaps :: "int list \<Rightarrow> int list" where
  "successive_gaps xs = map (\<lambda>i. xs ! Suc i - xs ! i) [0..<length xs - 1]"

text \<open>
  The effect on \<^verbatim>\<open>[n, k]\<close>: for \<open>n \<le> 0\<close> it calls \<^verbatim>\<open>reset()\<close>; otherwise it builds
  the sequence, pushes \<^verbatim>\<open>Math.min(k, n - 1)\<close> when the loop pushed nothing, and installs a
  fresh state.
\<close>

definition planned_sequence :: "int \<Rightarrow> int list" where
  "planned_sequence n =
     (let k = k_of n;
          seq = seq_loop n k k []
      in if length seq = 0 \<and> n > 0 then seq @ [min k (n - 1)] else seq)"

definition plan :: "int \<Rightarrow> SolverState \<Rightarrow> SolverState" where
  "plan n s =
     (if n \<le> 0 then reset s
      else \<lparr>sequence = planned_sequence n, drops = [], foundFloor = None,
             totalDrops = 0, finished = False\<rparr>)"

text \<open>
  What the hook derives from its argument \<^verbatim>\<open>{ n, secretF }\<close> before any operation is
  called: the memoised \<open>k\<close> and the state installed by the effect.
\<close>

definition useCrystalBallSolver :: "int \<Rightarrow> int \<Rightarrow> int \<times> SolverState" where
  "useCrystalBallSolver n secretF = (k_of n, plan n initial_state)"

section \<open>The search engine\<close>

text \<open>\<^verbatim>\<open>const testBreaks = (floor: number) => floor >= secretF;\<close>\<close>

definition testBreaks :: "int \<Rightarrow> int \<Rightarrow> bool" where
  "testBreaks secretF flr = (flr \<ge> secretF)"

text \<open>
  \<^verbatim>\<open>Array.prototype.findIndex\<close>: the index of the first element that satisfies the
  predicate, \<open>-1\<close> when there is none.
\<close>

fun findIndex :: "('a \<Rightarrow> bool) \<Rightarrow> 'a list \<Rightarrow> int" where
  "findIndex P [] = -1"
| "findIndex P (x # xs) =
     (if P x then 0 else (let r = findIndex P xs in if r = -1 then -1 else r + 1))"

text \<open>
  \<^verbatim>\<open>step()\<close>, branch by branch. Every array read of the source is in range where it is
  reached: \<^verbatim>\<open>sequence[firstPhaseIndex]\<close> under \<^verbatim>\<open>firstPhaseIndex < sequence.length\<close>,
  \<^verbatim>\<open>drops[brokeIndex]\<close> under \<^verbatim>\<open>brokeIndex !== -1\<close>, \<^verbatim>\<open>drops[brokeIndex - 1]\<close> under
  \<^verbatim>\<open>brokeIndex !== 0\<close>.
\<close>

definition step :: "int \<Rightarrow> SolverState \<Rightarrow> StepResult \<times> SolverState" where
  "step secretF state =
     (if finished state
      then (\<lparr>action = ''finished'', floorTested = None, broke = None\<rparr>, state)
      else
        let pastBreakIndex = findIndex (testBreaks secretF) (drops state);
            firstPhaseIndex = length (drops state)
        in
          if pastBreakIndex = -1 \<and> firstPhaseIndex < length (sequence state)
          then
            let floorToTest = sequence state ! firstPhaseIndex;
                brk = testBreaks secretF floorToTest
            in (\<lparr>action = (if brk then ''break'' else ''safe''),
                 floorTested = Some floorToTest, broke = Some brk\<rparr>,
                state\<lparr>drops := drops state @ [floorToTest],
                      totalDrops := totalDrops state + 1\<rparr>)
          else
            let brokeIndex = findIndex (testBreaks secretF) (drops state)
            in
              if brokeIndex \<noteq> -1
              then
                let breakFloor = drops state ! nat brokeIndex;
                    prevSafe = (if brokeIndex = 0 then -1
                                else drops state ! nat (brokeIndex - 1));
                    nextLinear =
                      prevSafe + 1 + (int (length (drops state)) - (brokeIndex + 1))
                in
                  if nextLinear \<le> breakFloor
                  then
                    let brk = testBreaks secretF nextLinear;
                        newDrops = drops state @ [nextLinear];
                        newTotal = totalDrops state + 1
                    in
                      if brk
                      then (\<lparr>action = ''found'', floorTested = Some nextLinear,
                             broke = Some True\<rparr>,
                            state\<lparr>drops := newDrops, totalDrops := newTotal,
                                  foundFloor := Some nextLinear, finished := True\<rparr>)
                      else (\<lparr>action = ''linear-safe'', floorTested = Some nextLinear,
                             broke = Some False\<rparr>,
                            state\<lparr>drops := newDrops, totalDrops := newTotal\<rparr>)
                  else (\<lparr>action = ''finished'', floorTested = None, broke = None\<rparr>,
                        state\<lparr>finished := True\<rparr>)
              else (\<lparr>action = ''finished'', floorTested = None, broke = None\<rparr>,
                    state\<lparr>finished := True\<rparr>))"

text \<open>
  The single-file copy of the hook (the \<^verbatim>\<open>App.tsx\<close> example that carries its own
  \<^verbatim>\<open>useCrystalBallSolver\<close>) has the same planner, \<^verbatim>\<open>runAll()\<close> and \<^verbatim>\<open>reset()\<close>; its
  \<^verbatim>\<open>step()\<close> only adds one early exit after the \<open>finished\<close> check,
  \<^verbatim>\<open>if (state.sequence.length === 0) { setState((s) => ({ ...s, finished: true }));
       return { action: 'finished' }; }\<close>
  and then runs the branches of \<open>step\<close> above (phase 1, phase 2, fallback).
\<close>

definition step_single_file :: "int \<Rightarrow> SolverState \<Rightarrow> StepResult \<times> SolverState" where
  "step_single_file secretF state =
     (if finished state
      then (\<lparr>action = ''finished'', floorTested = None, broke = None\<rparr>, state)
      else if length (sequence state) = 0
      then (\<lparr>action = ''finished'', floorTested = None, broke = None\<rparr>,
            state\<lparr>finished := True\<rparr>)
      else step secretF state)"

text \<open>A fixed number of \<^verbatim>\<open>step()\<close> calls, each on the state the previous one left.\<close>

primrec steps :: "nat \<Rightarrow> int \<Rightarrow> SolverState \<Rightarrow> SolverState" where
  "steps 0 secretF state = state"
| "steps (Suc m) secretF state = steps m secretF (snd (step secretF state))"

text \<open>
  The inner loop of \<^verbatim>\<open>runAll()\<close>:
  \<^verbatim>\<open>for (let lin = prevSafe + 1; lin <= f; lin++) { simDrops.push(lin); total++;
       if (testBreaks(lin)) { found = lin; break; } }\<close>
  The loops return \<^verbatim>\<open>simDrops\<close>, \<^verbatim>\<open>total\<close> and \<^verbatim>\<open>found\<close>.
\<close>

function scan_bracket ::
  "int \<Rightarrow> int \<Rightarrow> int \<Rightarrow> int list \<Rightarrow> int \<Rightarrow> int list \<times> int \<times> int option" where
  "scan_bracket secretF f lin simDrops tot =
     (if lin \<le> f
      then (if testBreaks secretF lin
            then (simDrops @ [lin], tot + 1, Some lin)
            else scan_bracket secretF f (lin + 1) (simDrops @ [lin]) (tot + 1))
      else (simDrops, tot, None))"
  by pat_completeness auto
termination
  by (relation "measure (\<lambda>(secretF, f, lin, simDrops, tot). nat (f + 1 - lin))") auto

declare scan_bracket.simps [simp del]

text \<open>
  The fallback loop of \<^verbatim>\<open>runAll()\<close>:
  \<^verbatim>\<open>for (let lin = lastTested + 1; lin < n; lin++) { simDrops.push(lin); total++;
       if (testBreaks(lin)) { found = lin; break; } }\<close>
\<close>

function scan_rest ::
  "int \<Rightarrow> int \<Rightarrow> int \<Rightarrow> int list \<Rightarrow> int \<Rightarrow> int list \<times> int \<times> int option" where
  "scan_rest secretF n lin simDrops tot =
     (if lin < n
      then (if testBreaks secretF lin
            then (simDrops @ [lin], tot + 1, Some lin)
            else scan_rest secretF n (lin + 1) (simDrops @ [lin]) (tot + 1))
      else (simDrops, tot, None))"
  by pat_completeness auto
termination
  by (relation "measure (\<lambda>(secretF, n, lin, simDrops, tot). nat (n - lin))") auto

declare scan_rest.simps [simp del]

text \<open>
  The outer loop of \<^verbatim>\<open>runAll()\<close> over \<^verbatim>\<open>state.sequence\<close>; it ends at the first probe
  that breaks, after the bracket scan.
\<close>

function first_phase ::
  "int \<Rightarrow> int list \<Rightarrow> nat \<Rightarrow> int list \<Rightarrow> int \<Rightarrow> int list \<times> int \<times> int option" where
  "first_phase secretF sq i simDrops tot =
     (if i < length sq
      then
        (if testBreaks secretF (sq ! i)
         then scan_bracket secretF (sq ! i)
                ((if i = 0 then -1 else sq ! (i - 1)) + 1) (simDrops @ [sq ! i]) (tot + 1)
         else first_phase secretF sq (i + 1) (simDrops @ [sq ! i]) (tot + 1))
      else (simDrops, tot, None))"
  by pat_completeness auto
termination
  by (relation "measure (\<lambda>(secretF, sq, i, simDrops, tot). length sq - i)") auto

declare first_phase.simps [simp del]

text \<open>
  \<^verbatim>\<open>runAll()\<close>: it starts from empty \<^verbatim>\<open>simDrops\<close> and reads only \<^verbatim>\<open>state.sequence\<close>;
  it returns \<^verbatim>\<open>{ simDrops, total, found }\<close> and installs the final state.
\<close>

definition runAll :: "int \<Rightarrow> int \<Rightarrow> SolverState \<Rightarrow> (int list \<times> int \<times> int) \<times> SolverState" where
  "runAll n secretF state =
     (let (simDrops1, tot1, found1) = first_phase secretF (sequence state) 0 [] 0;
          (simDrops2, tot2, found2) =
            (if found1 = None
             then
               let lastTested = (if length simDrops1 \<noteq> 0 then last simDrops1 else -1)
               in scan_rest secretF n (lastTested + 1) simDrops1 tot1
             else (simDrops1, tot1, found1));
          found3 = (case found2 of None \<Rightarrow> (if n = 0 then 0 else n - 1) | Some x \<Rightarrow> x)
      in ((simDrops2, tot2, found3),
          state\<lparr>drops := simDrops2, totalDrops := tot2, foundFloor := Some found3,
                finished := True\<rparr>))"

section \<open>Driving the engine step by step\<close>

text \<open>
  The caller's loop \<^verbatim>\<open>while (!state.finished) step()\<close>, each call on the committed state.
  It is a total function: every call of \<^verbatim>\<open>step()\<close> on an unfinished state either
  finishes, or uses up one planned probe, or moves the linear scan one floor closer to the
  break floor. The facts about \<^verbatim>\<open>findIndex\<close> below carry that argument.
\<close>

lemma findIndex_range:
  "findIndex P xs = -1 \<or> (0 \<le> findIndex P xs \<and> findIndex P xs < int (length xs))"
  by (induction xs) (auto simp: Let_def)

lemma findIndex_none_iff: "findIndex P xs = -1 \<longleftrightarrow> (\<forall>x\<in>set xs. \<not> P x)"
proof (induction xs)
  case Nil
  then show ?case by simp
next
  case (Cons x xs)
  with findIndex_range[of P xs] show ?case by (auto simp: Let_def)
qed

lemma findIndex_append:
  "findIndex P (xs @ [x]) =
     (if findIndex P xs \<noteq> -1 then findIndex P xs
      else if P x then int (length xs) else -1)"
proof (induction xs)
  case Nil
  then show ?case by simp
next
  case (Cons y ys)
  with findIndex_range[of P ys] show ?case by (auto simp: Let_def)
qed

lemma findIndex_nth: "findIndex P xs \<noteq> -1 \<Longrightarrow> P (xs ! nat (findIndex P xs))"
proof (induction xs)
  case Nil
  then show ?case by simp
next
  case (Cons y ys)
  with findIndex_range[of P ys] show ?case
    by (auto simp: Let_def nat_add_distrib split: if_splits)
qed

lemma findIndex_before:
  "0 \<le> j \<Longrightarrow> j < findIndex P xs \<Longrightarrow> \<not> P (xs ! nat j)"
proof (induction xs arbitrary: j)
  case Nil
  then show ?case by simp
next
  case (Cons y ys)
  show ?case
  proof (cases "j = 0")
    case True
    with Cons.prems show ?thesis by (auto split: if_splits)
  next
    case False
    with Cons.prems have "0 \<le> j - 1" "j - 1 < findIndex P ys"
      by (auto simp: Let_def split: if_splits)
    from Cons.IH[OF this] False Cons.prems(1) show ?thesis
      by (simp add: nth_Cons' nat_diff_distrib)
  qed
qed


text \<open>What is left of the bracket scan, of the descent, and of the run.\<close>

definition scan_left :: "int \<Rightarrow> SolverState \<Rightarrow> nat" where
  "scan_left secretF state =
     (let brokeIndex = findIndex (testBreaks secretF) (drops state);
          breakFloor = drops state ! nat brokeIndex;
          prevSafe = (if brokeIndex = 0 then -1 else drops state ! nat (brokeIndex - 1));
          nextLinear = prevSafe + 1 + (int (length (drops state)) - (brokeIndex + 1))
      in nat (breakFloor + 1 - nextLinear))"

definition descent_left :: "int \<Rightarrow> SolverState \<Rightarrow> nat" where
  "descent_left secretF state =
     (if findIndex (testBreaks secretF) (drops state) = -1
      then Suc (length (sequence state) - length (drops state)) else 0)"

definition unfinished :: "int \<Rightarrow> SolverState \<Rightarrow> nat" where
  "unfinished secretF state = (if finished state then 0 else 1)"

lemma step_decreases:
  assumes "\<not> finished state"
  shows "((secretF, snd (step secretF state)), (secretF, state))
           \<in> measures [\<lambda>(f, s). unfinished f s, \<lambda>(f, s). descent_left f s,
                        \<lambda>(f, s). scan_left f s]"
proof -
  let ?P = "testBreaks secretF"
  let ?bi = "findIndex ?P (drops state)"
  from findIndex_range[of ?P "drops state"]
  have r: "?bi = -1 \<or> (0 \<le> ?bi \<and> ?bi < int (length (drops state)))" .
  show ?thesis
  proof (cases "?bi = -1")
    case True
    with assms show ?thesis
      by (auto simp: step_def Let_def unfinished_def descent_left_def findIndex_append)
  next
    case False
    with r have b: "0 \<le> ?bi" "?bi < int (length (drops state))" by auto
    then have n1: "nat ?bi < length (drops state)" by simp
    have n2: "nat (?bi - 1) < length (drops state)" using b by simp
    from False assms n1 n2 show ?thesis
      by (auto simp: step_def Let_def unfinished_def descent_left_def scan_left_def
          findIndex_append nth_append)
  qed
qed

function run_steps :: "int \<Rightarrow> SolverState \<Rightarrow> SolverState" where
  "run_steps secretF state =
     (if finished state then state else run_steps secretF (snd (step secretF state)))"
  by pat_completeness auto
termination
proof (relation "measures [\<lambda>(f, s). unfinished f s, \<lambda>(f, s). descent_left f s,
                        \<lambda>(f, s). scan_left f s]")
  show "wf (measures [\<lambda>(f, s). unfinished f s, \<lambda>(f, s). descent_left f s,
                        \<lambda>(f, s). scan_left f s])"
    by simp
next
  fix secretF :: int and state :: SolverState
  assume "\<not> finished state"
  then show "((secretF, snd (step secretF state)), (secretF, state))
           \<in> measures [\<lambda>(f, s). unfinished f s, \<lambda>(f, s). descent_left f s,
                        \<lambda>(f, s). scan_left f s]"
    by (rule step_decreases)
qed

declare run_steps.simps [simp del]

section \<open>Notions used by the proofs\<close>

text \<open>The invariant of the sequence loop, for the \<open>k\<close> it was started with.\<close>

definition seq_inv :: "int \<Rightarrow> int \<Rightarrow> int \<Rightarrow> int \<Rightarrow> int list \<Rightarrow> bool" where
  "seq_inv n k stp current acc \<longleftrightarrow>
     0 \<le> stp \<and> stp = k - int (length acc) \<and>
     (acc = [] \<longrightarrow> current = k) \<and>
     (acc \<noteq> [] \<longrightarrow> current = last acc + stp \<and> hd acc = k) \<and>
     (\<forall>i. Suc i < length acc \<longrightarrow> acc ! Suc i - acc ! i = k - int (Suc i)) \<and>
     (\<forall>x \<in> set acc. x < n) \<and>
     2 * current + (stp - 1) * stp = k * (k + 1)"

text \<open>
  The scan candidate and the break floor that \<^verbatim>\<open>step()\<close> computes in phase 2, as
  functions of the state.
\<close>

definition nextLinear_of :: "int \<Rightarrow> SolverState \<Rightarrow> int" where
  "nextLinear_of secretF state =
     (let brokeIndex = findIndex (testBreaks secretF) (drops state);
          prevSafe = (if brokeIndex = 0 then -1 else drops state ! nat (brokeIndex - 1))
      in prevSafe + 1 + (int (length (drops state)) - (brokeIndex + 1)))"

definition breakFloor_of :: "int \<Rightarrow> SolverState \<Rightarrow> int" where
  "breakFloor_of secretF state =
     drops state ! nat (findIndex (testBreaks secretF) (drops state))"

section \<open>Properties of \<open>k\<close>\<close>

lemma kLocal_loop_unfold_true:
  "(kLocal * (kLocal + 1)) div 2 < n \<Longrightarrow> kLocal_loop n kLocal = kLocal_loop n (kLocal + 1)"
  by (subst kLocal_loop.simps) simp

lemma kLocal_loop_unfold_false:
  "\<not> (kLocal * (kLocal + 1)) div 2 < n \<Longrightarrow> kLocal_loop n kLocal = kLocal"
  by (subst kLocal_loop.simps) simp

lemma kLocal_loop_ge: "n \<le> (kLocal_loop n kLocal * (kLocal_loop n kLocal + 1)) div 2"
proof (induction n kLocal rule: kLocal_loop.induct)
  case (1 n kLocal)
  show ?case
  proof (cases "(kLocal * (kLocal + 1)) div 2 < n")
    case True
    with "1.IH"[OF True] show ?thesis by (simp add: kLocal_loop_unfold_true)
  next
    case False
    then show ?thesis by (simp add: kLocal_loop_unfold_false)
  qed
qed

lemma kLocal_loop_mono: "kLocal \<le> kLocal_loop n kLocal"
proof (induction n kLocal rule: kLocal_loop.induct)
  case (1 n kLocal)
  show ?case
  proof (cases "(kLocal * (kLocal + 1)) div 2 < n")
    case True
    with "1.IH"[OF True] show ?thesis by (simp add: kLocal_loop_unfold_true)
  next
    case False
    then show ?thesis by (simp add: kLocal_loop_unfold_false)
  qed
qed

text \<open>The loop only moves past a candidate that is still too small.\<close>

lemma kLocal_loop_least:
  "\<forall>j. 0 \<le> j \<and> j < kLocal \<longrightarrow> (j * (j + 1)) div 2 < n \<Longrightarrow>
   0 \<le> j \<Longrightarrow> j < kLocal_loop n kLocal \<Longrightarrow> (j * (j + 1)) div 2 < n"
proof (induction n kLocal rule: kLocal_loop.induct)
  case (1 n kLocal)
  show ?case
  proof (cases "(kLocal * (kLocal + 1)) div 2 < n")
    case True
    have "\<forall>j. 0 \<le> j \<and> j < kLocal + 1 \<longrightarrow> (j * (j + 1)) div 2 < n"
    proof (intro allI impI)
      fix i assume i: "0 \<le> i \<and> i < kLocal + 1"
      then have "i < kLocal \<or> i = kLocal" by auto
      then show "(i * (i + 1)) div 2 < n"
        using "1.prems"(1) True i by auto
    qed
    from "1.IH"[OF True this "1.prems"(2)] "1.prems"(3) show ?thesis
      by (simp add: kLocal_loop_unfold_true[OF True])
  next
    case False
    with "1.prems" show ?thesis by (simp add: kLocal_loop_unfold_false)
  qed
qed

text \<open>
  Claim C3. For every integer \<open>n > 0\<close> the planner's \<open>k\<close> is non-negative, satisfies
  \<open>k * (k + 1) / 2 \<ge> n\<close>, and every non-negative \<open>j < k\<close> has \<open>j * (j + 1) / 2 < n\<close>:
  \<open>k\<close> is the smallest non-negative integer whose triangular number reaches \<open>n\<close>.
\<close>

theorem k_smallest_triangular:
  "0 < n \<Longrightarrow>
     0 \<le> k_of n \<and> n \<le> (k_of n * (k_of n + 1)) div 2 \<and>
     (\<forall>j. 0 \<le> j \<and> j < k_of n \<longrightarrow> (j * (j + 1)) div 2 < n)"
  unfolding k_of_def
  using kLocal_loop_ge[of n 0] kLocal_loop_mono[of 0 n] kLocal_loop_least[of 0 n]
  by auto

theorem k_smallest_triangular_witness:
  "(0::int) < 10 \<and> k_of 10 = 4 \<and> 10 \<le> (k_of 10 * (k_of 10 + 1)) div 2 \<and>
   (0::int) \<le> 3 \<and> 3 < k_of 10 \<and> ((3::int) * (3 + 1)) div 2 < 10"
proof -
  have k: "k_of 10 = 4" by code_simp
  from k_smallest_triangular[of 10]
  have "10 \<le> (k_of 10 * (k_of 10 + 1)) div 2"
    and "\<forall>j. 0 \<le> j \<and> j < k_of 10 \<longrightarrow> (j * (j + 1)) div 2 < 10"
    by simp_all
  then have "10 \<le> (k_of 10 * (k_of 10 + 1)) div 2"
    and "(0::int) \<le> 3 \<and> 3 < k_of 10 \<longrightarrow> ((3::int) * (3 + 1)) div 2 < 10"
    by blast+
  with k show ?thesis by simp
qed

text \<open>
  Claim C8. The planner's output is a function of \<open>n\<close> alone: for every \<open>n\<close> and every two
  secrets, the hook derives the same \<open>k\<close> and the same probe sequence.
\<close>

theorem plan_independent_of_secret:
  "fst (useCrystalBallSolver n secretF1) = fst (useCrystalBallSolver n secretF2) \<and>
   sequence (snd (useCrystalBallSolver n secretF1)) =
     sequence (snd (useCrystalBallSolver n secretF2))"
  by (simp add: useCrystalBallSolver_def)

section \<open>Properties of \<open>step\<close>\<close>

lemma step_finished_id:
  "finished state \<Longrightarrow> step secretF state = (\<lparr>action = ''finished'', floorTested = None, broke = None\<rparr>, state)"
  by (simp add: step_def)

lemma steps_finished_id: "finished state \<Longrightarrow> steps m secretF state = state"
  by (induction m) (simp_all add: step_finished_id)

text \<open>
  Claim C6. In every state with \<open>finished\<close> true, \<^verbatim>\<open>step()\<close> returns the terminal marker
  \<^verbatim>\<open>{ action: 'finished' }\<close> and leaves the whole state (sequence, drops, foundFloor,
  totalDrops, finished) as it was; so does any number of further calls, and no probe is
  appended after \<open>finished\<close> has become true.
\<close>

theorem step_after_finished:
  "finished state \<Longrightarrow>
     step secretF state =
       (\<lparr>action = ''finished'', floorTested = None, broke = None\<rparr>, state) \<and>
     steps m secretF state = state"
  by (simp add: step_finished_id steps_finished_id)

theorem step_after_finished_witness:
  "finished \<lparr>sequence = [4, 7, 9], drops = [4, 0], foundFloor = Some 0, totalDrops = 2,
              finished = True\<rparr> \<and>
   step 0 \<lparr>sequence = [4, 7, 9], drops = [4, 0], foundFloor = Some 0, totalDrops = 2,
            finished = True\<rparr> =
     (\<lparr>action = ''finished'', floorTested = None, broke = None\<rparr>,
      \<lparr>sequence = [4, 7, 9], drops = [4, 0], foundFloor = Some 0, totalDrops = 2,
        finished = True\<rparr>) \<and>
   steps 3 0 \<lparr>sequence = [4, 7, 9], drops = [4, 0], foundFloor = Some 0, totalDrops = 2,
              finished = True\<rparr> =
     \<lparr>sequence = [4, 7, 9], drops = [4, 0], foundFloor = Some 0, totalDrops = 2,
       finished = True\<rparr>"
  using step_after_finished[of "\<lparr>sequence = [4, 7, 9], drops = [4, 0], foundFloor = Some 0,
    totalDrops = 2, finished = True\<rparr>" 0 3]
  by simp

text \<open>
  Claim C5, as the spec states it: for \<open>n \<le> 0\<close> the engine reports \<open>finished = true\<close>
  as soon as the configuration is applied. The effect calls \<^verbatim>\<open>reset()\<close>, which writes
  \<^verbatim>\<open>finished: false\<close>; at \<open>n = 0\<close> the state is unfinished.
\<close>

theorem plan_nonpositive_counterexample:
  "\<not> (sequence (plan 0 initial_state) = [] \<and> finished (plan 0 initial_state) \<and>
      drops (plan 0 initial_state) = [] \<and> totalDrops (plan 0 initial_state) = 0 \<and>
      foundFloor (plan 0 initial_state) = None)"
  by (simp add: plan_def reset_def)

text \<open>
  Claim C5, amended. For every \<open>n \<le> 0\<close> the state after the configuration is applied has
  an empty sequence, no drops, zero totalDrops, no foundFloor and \<open>finished = false\<close>; the
  first \<^verbatim>\<open>step()\<close> call then returns the terminal marker and sets \<open>finished\<close> without
  recording a probe.
\<close>

theorem plan_nonpositive:
  "n \<le> 0 \<Longrightarrow>
     plan n state =
       \<lparr>sequence = [], drops = [], foundFloor = None, totalDrops = 0, finished = False\<rparr> \<and>
     step secretF (plan n state) =
       (\<lparr>action = ''finished'', floorTested = None, broke = None\<rparr>,
        \<lparr>sequence = [], drops = [], foundFloor = None, totalDrops = 0, finished = True\<rparr>)"
  by (simp add: plan_def reset_def step_def)

theorem plan_nonpositive_witness:
  "(0::int) \<le> 0 \<and>
     plan 0 initial_state =
       \<lparr>sequence = [], drops = [], foundFloor = None, totalDrops = 0, finished = False\<rparr> \<and>
     step 0 (plan 0 initial_state) =
       (\<lparr>action = ''finished'', floorTested = None, broke = None\<rparr>,
        \<lparr>sequence = [], drops = [], foundFloor = None, totalDrops = 0, finished = True\<rparr>)"
proof -
  have h: "(0::int) \<le> 0" by simp
  from h plan_nonpositive[OF h, of initial_state 0] show ?thesis by blast
qed

text \<open>
  The single-file \<^verbatim>\<open>step()\<close> is the hook's \<^verbatim>\<open>step()\<close> wherever a sequence is installed
  or the state is finished, so on every state planned for \<open>n > 0\<close> and every state
  stepped from one; with an empty sequence it finishes without a probe.
\<close>

lemma step_single_file_eq:
  "finished state \<or> sequence state \<noteq> [] \<Longrightarrow>
     step_single_file secretF state = step secretF state"
  by (auto simp: step_single_file_def step_def)

lemma step_single_file_empty:
  "\<not> finished state \<Longrightarrow> sequence state = [] \<Longrightarrow>
     snd (step_single_file secretF state) = state\<lparr>finished := True\<rparr>"
  by (simp add: step_single_file_def)

lemma step_keeps_sequence: "sequence (snd (step secretF state)) = sequence state"
  by (simp add: step_def Let_def)

lemma step_in_scan:
  assumes "findIndex (testBreaks secretF) (drops state) \<noteq> -1"
  shows "findIndex (testBreaks secretF) (drops (snd (step secretF state))) =
           findIndex (testBreaks secretF) (drops state) \<and>
         (drops (snd (step secretF state)) = drops state \<or>
          (\<exists>x. drops (snd (step secretF state)) = drops state @ [x] \<and>
               x \<le> drops state ! nat (findIndex (testBreaks secretF) (drops state))))"
  using assms by (auto simp: step_def Let_def findIndex_append)

lemma findIndex_lt_length:
  "findIndex P xs \<noteq> -1 \<Longrightarrow> nat (findIndex P xs) < length xs"
  using findIndex_range[of P xs] by auto

lemma steps_in_scan:
  "findIndex (testBreaks secretF) (drops state) \<noteq> -1 \<Longrightarrow>
   \<exists>ys. drops (steps m secretF state) = drops state @ ys \<and>
     (\<forall>y \<in> set ys. y \<le> drops state ! nat (findIndex (testBreaks secretF) (drops state)))"
proof (induction m arbitrary: state)
  case 0
  then show ?case by simp
next
  case (Suc m)
  let ?s = "snd (step secretF state)"
  let ?bi = "findIndex (testBreaks secretF) (drops state)"
  from step_in_scan[OF Suc.prems]
  have same: "findIndex (testBreaks secretF) (drops ?s) = ?bi"
    and app: "drops ?s = drops state \<or>
          (\<exists>x. drops ?s = drops state @ [x] \<and> x \<le> drops state ! nat ?bi)"
    by simp_all
  from same Suc.prems have "findIndex (testBreaks secretF) (drops ?s) \<noteq> -1" by simp
  from Suc.IH[OF this] same
  obtain ys where ys: "drops (steps m secretF ?s) = drops ?s @ ys"
     "\<forall>y \<in> set ys. y \<le> drops ?s ! nat ?bi"
    by auto
  from findIndex_lt_length[OF Suc.prems] have lt: "nat ?bi < length (drops state)" .
  from app show ?case
  proof
    assume "drops ?s = drops state"
    with ys show ?thesis by simp
  next
    assume "\<exists>x. drops ?s = drops state @ [x] \<and> x \<le> drops state ! nat ?bi"
    then obtain x where x: "drops ?s = drops state @ [x]" "x \<le> drops state ! nat ?bi" by blast
    from x(1) lt have "drops ?s ! nat ?bi = drops state ! nat ?bi" by (simp add: nth_append)
    with ys x have "drops (steps m secretF ?s) = drops state @ (x # ys)"
      "\<forall>y \<in> set (x # ys). y \<le> drops state ! nat ?bi"
      by simp_all
    then show ?thesis unfolding steps.simps by blast
  qed
qed

text \<open>
  Claim C9. Once \<open>drops\<close> holds an entry that breaks (\<open>floor \<ge> secretF\<close>), any number of
  \<^verbatim>\<open>step()\<close> calls only appends to \<open>drops\<close>, and every floor appended is at most the
  first breaking entry: the second-phase scan never tests a floor above the break floor.
\<close>

theorem scan_never_above_break:
  "findIndex (testBreaks secretF) (drops state) \<noteq> -1 \<Longrightarrow>
   \<exists>ys. drops (steps m secretF state) = drops state @ ys \<and>
     (\<forall>y \<in> set ys. y \<le> drops state ! nat (findIndex (testBreaks secretF) (drops state)))"
  by (rule steps_in_scan)

theorem scan_never_above_break_witness:
  "findIndex (testBreaks 7) (drops (steps 2 7 (plan 10 initial_state))) \<noteq> -1 \<and>
   drops (steps 3 7 (steps 2 7 (plan 10 initial_state))) =
     drops (steps 2 7 (plan 10 initial_state)) @ [5, 6, 7] \<and>
   5 \<le> drops (steps 2 7 (plan 10 initial_state)) !
         nat (findIndex (testBreaks 7) (drops (steps 2 7 (plan 10 initial_state)))) \<and>
   6 \<le> drops (steps 2 7 (plan 10 initial_state)) !
         nat (findIndex (testBreaks 7) (drops (steps 2 7 (plan 10 initial_state)))) \<and>
   7 \<le> drops (steps 2 7 (plan 10 initial_state)) !
         nat (findIndex (testBreaks 7) (drops (steps 2 7 (plan 10 initial_state))))"
proof -
  let ?S = "steps 2 7 (plan 10 initial_state)"
  have d2: "drops ?S = [4, 7]" by code_simp
  have d5: "drops (steps 3 7 ?S) = [4, 7, 5, 6, 7]" by code_simp
  have h: "findIndex (testBreaks 7) (drops ?S) \<noteq> -1" by code_simp
  from scan_never_above_break[OF h, of 3] obtain ys where
    ys: "drops (steps 3 7 ?S) = drops ?S @ ys"
      "\<forall>y \<in> set ys. y \<le> drops ?S ! nat (findIndex (testBreaks 7) (drops ?S))"
    by blast
  from ys(1) d2 d5 have "ys = [5, 6, 7]" by simp
  with ys h show ?thesis by simp
qed

section \<open>Properties of \<open>runAll\<close>\<close>

text \<open>
  The two scan loops differ only in how the bound is written (\<^verbatim>\<open>lin <= f\<close> against
  \<^verbatim>\<open>lin < n\<close>), so the facts are proved for the bracket scan and carried over.
\<close>

lemma scan_bracket_stop:
  "\<not> lin \<le> f \<Longrightarrow> scan_bracket secretF f lin simDrops tot = (simDrops, tot, None)"
  by (subst scan_bracket.simps) simp

lemma scan_bracket_hit:
  "lin \<le> f \<Longrightarrow> testBreaks secretF lin \<Longrightarrow>
     scan_bracket secretF f lin simDrops tot = (simDrops @ [lin], tot + 1, Some lin)"
  by (subst scan_bracket.simps) simp

lemma scan_bracket_miss:
  "lin \<le> f \<Longrightarrow> \<not> testBreaks secretF lin \<Longrightarrow>
     scan_bracket secretF f lin simDrops tot =
       scan_bracket secretF f (lin + 1) (simDrops @ [lin]) (tot + 1)"
  by (subst scan_bracket.simps) simp

lemma scan_rest_eq_bracket:
  "scan_rest secretF n lin simDrops tot = scan_bracket secretF (n - 1) lin simDrops tot"
proof (induction secretF n lin simDrops tot rule: scan_rest.induct)
  case (1 secretF n lin simDrops tot)
  show ?case
  proof (cases "lin < n")
    case False
    then show ?thesis by (subst scan_rest.simps) (simp add: scan_bracket_stop)
  next
    case lt: True
    show ?thesis
    proof (cases "testBreaks secretF lin")
      case True
      with lt show ?thesis by (subst scan_rest.simps) (simp add: scan_bracket_hit)
    next
      case False
      with lt "1.IH" show ?thesis by (subst scan_rest.simps) (simp add: scan_bracket_miss)
    qed
  qed
qed

lemma scan_bracket_finds:
  "lin \<le> secretF \<Longrightarrow> secretF \<le> f \<Longrightarrow>
     snd (snd (scan_bracket secretF f lin simDrops tot)) = Some secretF"
proof (induction secretF f lin simDrops tot rule: scan_bracket.induct)
  case (1 secretF f lin simDrops tot)
  from "1.prems" have le: "lin \<le> f" by simp
  show ?case
  proof (cases "testBreaks secretF lin")
    case True
    with "1.prems" have "lin = secretF" by (simp add: testBreaks_def)
    with le True show ?thesis by (simp add: scan_bracket_hit)
  next
    case False
    then have "lin + 1 \<le> secretF" by (simp add: testBreaks_def)
    from "1.IH"[OF le False this "1.prems"(2)] le False show ?thesis
      by (simp add: scan_bracket_miss)
  qed
qed

lemma scan_bracket_last:
  "snd (snd (scan_bracket secretF f lin simDrops tot)) = Some x \<Longrightarrow>
     fst (scan_bracket secretF f lin simDrops tot) \<noteq> [] \<and>
     last (fst (scan_bracket secretF f lin simDrops tot)) = x"
proof (induction secretF f lin simDrops tot rule: scan_bracket.induct)
  case (1 secretF f lin simDrops tot)
  show ?case
  proof (cases "lin \<le> f")
    case False
    with "1.prems" show ?thesis by (simp add: scan_bracket_stop)
  next
    case le: True
    show ?thesis
    proof (cases "testBreaks secretF lin")
      case True
      with le "1.prems" show ?thesis by (simp add: scan_bracket_hit)
    next
      case False
      with le "1.prems" "1.IH"[OF le False] show ?thesis by (simp add: scan_bracket_miss)
    qed
  qed
qed

lemma scan_bracket_count:
  "fst (snd (scan_bracket secretF f lin simDrops tot))
     - int (length (fst (scan_bracket secretF f lin simDrops tot)))
   = tot - int (length simDrops)"
proof (induction secretF f lin simDrops tot rule: scan_bracket.induct)
  case (1 secretF f lin simDrops tot)
  show ?case
  proof (cases "lin \<le> f")
    case False
    then show ?thesis by (simp add: scan_bracket_stop)
  next
    case le: True
    show ?thesis
    proof (cases "testBreaks secretF lin")
      case True
      with le show ?thesis by (simp add: scan_bracket_hit)
    next
      case False
      with le "1.IH"[OF le False] show ?thesis by (simp add: scan_bracket_miss)
    qed
  qed
qed

lemma first_phase_stop:
  "\<not> i < length sq \<Longrightarrow> first_phase secretF sq i simDrops tot = (simDrops, tot, None)"
  by (subst first_phase.simps) simp

lemma first_phase_hit:
  "i < length sq \<Longrightarrow> testBreaks secretF (sq ! i) \<Longrightarrow>
     first_phase secretF sq i simDrops tot =
       scan_bracket secretF (sq ! i) ((if i = 0 then -1 else sq ! (i - 1)) + 1)
         (simDrops @ [sq ! i]) (tot + 1)"
  by (subst first_phase.simps) simp

lemma first_phase_miss:
  "i < length sq \<Longrightarrow> \<not> testBreaks secretF (sq ! i) \<Longrightarrow>
     first_phase secretF sq i simDrops tot =
       first_phase secretF sq (i + 1) (simDrops @ [sq ! i]) (tot + 1)"
  by (subst first_phase.simps) simp

lemma first_phase_finds:
  "0 \<le> secretF \<Longrightarrow> i = 0 \<or> sq ! (i - 1) < secretF \<Longrightarrow>
     snd (snd (first_phase secretF sq i simDrops tot)) = Some secretF \<or>
     (first_phase secretF sq i simDrops tot = (simDrops @ drop i sq, tot + int (length sq - i), None)
       \<and> (\<forall>x \<in> set (drop i sq). x < secretF))"
proof (induction secretF sq i simDrops tot rule: first_phase.induct)
  case (1 secretF sq i simDrops tot)
  show ?case
  proof (cases "i < length sq")
    case False
    then show ?thesis by (simp add: first_phase_stop)
  next
    case lt: True
    show ?thesis
    proof (cases "testBreaks secretF (sq ! i)")
      case True
      from "1.prems" have "(if i = 0 then -1 else sq ! (i - 1)) + 1 \<le> secretF" by auto
      moreover from True have "secretF \<le> sq ! i" by (simp add: testBreaks_def)
      ultimately show ?thesis
        using lt True by (simp add: first_phase_hit scan_bracket_finds)
    next
      case False
      then have "i + 1 = 0 \<or> sq ! (i + 1 - 1) < secretF" by (simp add: testBreaks_def)
      from "1.IH"[OF lt False "1.prems"(1) this]
      show ?thesis
      proof
        assume "snd (snd (first_phase secretF sq (i + 1) (simDrops @ [sq ! i]) (tot + 1))) = Some secretF"
        with lt False show ?thesis by (simp add: first_phase_miss)
      next
        assume a: "first_phase secretF sq (i + 1) (simDrops @ [sq ! i]) (tot + 1) =
          ((simDrops @ [sq ! i]) @ drop (i + 1) sq, tot + 1 + int (length sq - (i + 1)), None) \<and>
          (\<forall>x\<in>set (drop (i + 1) sq). x < secretF)"
        from lt have d: "drop i sq = sq ! i # drop (i + 1) sq"
          by (simp add: Cons_nth_drop_Suc)
        from lt have l: "tot + 1 + int (length sq - (i + 1)) = tot + int (length sq - i)" by simp
        from False have "sq ! i < secretF" by (simp add: testBreaks_def)
        with a d l lt False show ?thesis by (simp add: first_phase_miss)
      qed
    qed
  qed
qed

lemma first_phase_last:
  "snd (snd (first_phase secretF sq i simDrops tot)) = Some x \<Longrightarrow>
     fst (first_phase secretF sq i simDrops tot) \<noteq> [] \<and>
     last (fst (first_phase secretF sq i simDrops tot)) = x"
proof (induction secretF sq i simDrops tot rule: first_phase.induct)
  case (1 secretF sq i simDrops tot)
  show ?case
  proof (cases "i < length sq")
    case False
    with "1.prems" show ?thesis by (simp add: first_phase_stop)
  next
    case lt: True
    show ?thesis
    proof (cases "testBreaks secretF (sq ! i)")
      case True
      with lt "1.prems" show ?thesis by (simp add: first_phase_hit scan_bracket_last)
    next
      case False
      with lt "1.prems" "1.IH"[OF lt False] show ?thesis by (simp add: first_phase_miss)
    qed
  qed
qed

lemma first_phase_count:
  "fst (snd (first_phase secretF sq i simDrops tot))
     - int (length (fst (first_phase secretF sq i simDrops tot)))
   = tot - int (length simDrops)"
proof (induction secretF sq i simDrops tot rule: first_phase.induct)
  case (1 secretF sq i simDrops tot)
  show ?case
  proof (cases "i < length sq")
    case False
    then show ?thesis by (simp add: first_phase_stop)
  next
    case lt: True
    show ?thesis
    proof (cases "testBreaks secretF (sq ! i)")
      case True
      with lt show ?thesis by (simp add: first_phase_hit scan_bracket_count)
    next
      case False
      with lt "1.IH"[OF lt False] show ?thesis by (simp add: first_phase_miss)
    qed
  qed
qed

lemma runAll_finds:
  assumes "0 \<le> secretF" "secretF < n"
  shows "foundFloor (snd (runAll n secretF state)) = Some secretF \<and>
         drops (snd (runAll n secretF state)) \<noteq> [] \<and>
         last (drops (snd (runAll n secretF state))) = secretF"
proof -
  let ?fp = "first_phase secretF (sequence state) 0 [] 0"
  from first_phase_finds[OF assms(1), of 0 "sequence state" "[]" 0]
  have "snd (snd ?fp) = Some secretF \<or>
     (?fp = (sequence state, int (length (sequence state)), None)
       \<and> (\<forall>x \<in> set (sequence state). x < secretF))"
    by simp
  then show ?thesis
  proof
    assume a: "snd (snd ?fp) = Some secretF"
    from first_phase_last[OF a] a show ?thesis
      by (simp add: runAll_def Let_def split_beta)
  next
    assume a: "?fp = (sequence state, int (length (sequence state)), None)
       \<and> (\<forall>x \<in> set (sequence state). x < secretF)"
    let ?lt = "if length (sequence state) \<noteq> 0 then last (sequence state) else -1"
    let ?sb = "scan_bracket secretF (n - 1) (?lt + 1) (sequence state) (int (length (sequence state)))"
    have "?lt + 1 \<le> secretF"
    proof (cases "sequence state = []")
      case True
      with assms(1) show ?thesis by simp
    next
      case False
      then have "last (sequence state) \<in> set (sequence state)" by (rule last_in_set)
      with a have "last (sequence state) < secretF" by blast
      with False show ?thesis by simp
    qed
    moreover from assms(2) have "secretF \<le> n - 1" by simp
    ultimately have f: "snd (snd ?sb) = Some secretF" by (rule scan_bracket_finds)
    from scan_bracket_last[OF f] f a assms show ?thesis
      by (cases "sequence state = []")
        (simp_all add: runAll_def Let_def split_beta scan_rest_eq_bracket)
  qed
qed

lemma runAll_count:
  "totalDrops (snd (runAll n secretF state)) = int (length (drops (snd (runAll n secretF state))))"
  using first_phase_count[of secretF "sequence state" 0 "[]" 0]
    scan_bracket_count[of secretF "n - 1"
      "(if length (fst (first_phase secretF (sequence state) 0 [] 0)) \<noteq> 0
        then last (fst (first_phase secretF (sequence state) 0 [] 0)) else -1) + 1"
      "fst (first_phase secretF (sequence state) 0 [] 0)"
      "fst (snd (first_phase secretF (sequence state) 0 [] 0))"]
  by (simp add: runAll_def Let_def split_beta scan_rest_eq_bracket)

text \<open>
  Claim C1. For every \<open>n > 0\<close> and every secret with \<open>0 \<le> secretF < n\<close>, \<^verbatim>\<open>runAll()\<close> on
  the freshly planned state sets \<open>foundFloor\<close> to \<open>secretF\<close> (and returns it as \<^verbatim>\<open>found\<close>).
\<close>

theorem runAll_finds_secret:
  "0 < n \<Longrightarrow> 0 \<le> secretF \<Longrightarrow> secretF < n \<Longrightarrow>
     foundFloor (snd (runAll n secretF (plan n state))) = Some secretF \<and>
     snd (snd (fst (runAll n secretF (plan n state)))) = secretF"
proof -
  assume "0 \<le> secretF" "secretF < n"
  from runAll_finds[OF this, of "plan n state"]
  have "foundFloor (snd (runAll n secretF (plan n state))) = Some secretF" by simp
  moreover have "foundFloor (snd (runAll n secretF (plan n state))) =
      Some (snd (snd (fst (runAll n secretF (plan n state)))))"
    by (simp add: runAll_def Let_def split_beta)
  ultimately show ?thesis by simp
qed

theorem runAll_finds_secret_witness:
  "(0::int) < 10 \<and> (0::int) \<le> 7 \<and> (7::int) < 10 \<and>
     foundFloor (snd (runAll 10 7 (plan 10 initial_state))) = Some 7 \<and>
     snd (snd (fst (runAll 10 7 (plan 10 initial_state)))) = 7"
  using runAll_finds_secret[of 10 7 initial_state] by simp

text \<open>
  Claim C10. For every \<open>n > 0\<close> and \<open>0 \<le> secretF < n\<close>, after \<^verbatim>\<open>runAll()\<close> (from any
  state) the drops list is not empty and \<open>foundFloor\<close> is its last element: the probe that
  identifies the breaking floor is the final drop recorded.
\<close>

theorem runAll_found_is_last_drop:
  "0 < n \<Longrightarrow> 0 \<le> secretF \<Longrightarrow> secretF < n \<Longrightarrow>
     drops (snd (runAll n secretF state)) \<noteq> [] \<and>
     foundFloor (snd (runAll n secretF state)) =
       Some (last (drops (snd (runAll n secretF state))))"
  using runAll_finds[of secretF n state] by simp

theorem runAll_found_is_last_drop_witness:
  "(0::int) < 5 \<and> (0::int) \<le> 4 \<and> (4::int) < 5 \<and>
     drops (snd (runAll 5 4 (plan 5 initial_state))) \<noteq> [] \<and>
     foundFloor (snd (runAll 5 4 (plan 5 initial_state))) =
       Some (last (drops (snd (runAll 5 4 (plan 5 initial_state)))))"
  using runAll_found_is_last_drop[of 5 4 "plan 5 initial_state"] by simp

section \<open>The drop counter\<close>

lemma step_keeps_count:
  "drops_counted state \<Longrightarrow> drops_counted (snd (step secretF state))"
  by (auto simp: drops_counted_def step_def Let_def)

text \<open>
  Claim C7. \<open>totalDrops = length drops\<close> holds in the initial state, is preserved by
  \<^verbatim>\<open>step()\<close>, and holds after \<^verbatim>\<open>runAll()\<close>, after \<^verbatim>\<open>reset()\<close> and after re-planning for
  a new configuration, whatever the state was before.
\<close>

theorem totalDrops_is_length_drops:
  "drops_counted initial_state \<and>
   (drops_counted state \<longrightarrow> drops_counted (snd (step secretF state))) \<and>
   drops_counted (snd (runAll n secretF state)) \<and>
   drops_counted (reset state) \<and>
   drops_counted (plan n state)"
  using runAll_count[of n secretF state]
  by (simp add: step_keeps_count)
     (simp add: drops_counted_def initial_state_def reset_def plan_def)

theorem totalDrops_is_length_drops_witness:
  "drops_counted initial_state \<and>
   drops_counted (steps 2 7 (plan 10 initial_state)) \<and>
   drops_counted (snd (step 7 (steps 2 7 (plan 10 initial_state)))) \<and>
   drops_counted (snd (runAll 10 7 (steps 2 7 (plan 10 initial_state)))) \<and>
   drops_counted (reset (steps 2 7 (plan 10 initial_state))) \<and>
   drops_counted (plan 10 (steps 2 7 (plan 10 initial_state)))"
proof -
  have h: "drops_counted (steps 2 7 (plan 10 initial_state))" by code_simp
  with totalDrops_is_length_drops[of "steps 2 7 (plan 10 initial_state)" 7 10]
  show ?thesis by blast
qed

section \<open>Properties of the probe sequence\<close>

lemma seq_loop_stop:
  "\<not> (current < n \<and> stp > 0) \<Longrightarrow> seq_loop n stp current acc = acc"
  by (subst seq_loop.simps) auto

lemma seq_loop_push:
  "current < n \<Longrightarrow> stp > 0 \<Longrightarrow>
     seq_loop n stp current acc = seq_loop n (stp - 1) (current + (stp - 1)) (acc @ [current])"
  by (subst seq_loop.simps) simp

lemma seq_inv_push:
  assumes inv: "seq_inv n k stp current acc" and c: "current < n" and s: "stp > 0"
  shows "seq_inv n k (stp - 1) (current + (stp - 1)) (acc @ [current])"
proof -
  from inv have i1: "stp = k - int (length acc)"
    and i2: "acc = [] \<longrightarrow> current = k"
    and i3: "acc \<noteq> [] \<longrightarrow> current = last acc + stp \<and> hd acc = k"
    and i4: "\<forall>i. Suc i < length acc \<longrightarrow> acc ! Suc i - acc ! i = k - int (Suc i)"
    and i5: "\<forall>x \<in> set acc. x < n"
    and i6: "2 * current + (stp - 1) * stp = k * (k + 1)"
    unfolding seq_inv_def by blast+
  have g: "\<forall>i. Suc i < length (acc @ [current]) \<longrightarrow>
      (acc @ [current]) ! Suc i - (acc @ [current]) ! i = k - int (Suc i)"
  proof (intro allI impI)
    fix i assume a: "Suc i < length (acc @ [current])"
    show "(acc @ [current]) ! Suc i - (acc @ [current]) ! i = k - int (Suc i)"
    proof (cases "Suc i < length acc")
      case True
      with i4 show ?thesis by (simp add: nth_append)
    next
      case False
      with a have e: "Suc i = length acc" by simp
      then have ne: "acc \<noteq> []" by auto
      from e have "length acc - 1 = i" by simp
      with ne have "last acc = acc ! i" by (simp add: last_conv_nth)
      with i3 ne i1 e show ?thesis by (simp add: nth_append)
    qed
  qed
  have h: "hd (acc @ [current]) = k" using i2 i3 by (cases acc) auto
  have p: "2 * (current + (stp - 1)) + (stp - 1 - 1) * (stp - 1) = k * (k + 1)"
    using i6 by (simp add: algebra_simps)
  from s i1 i5 c g h p show ?thesis
    unfolding seq_inv_def by simp
qed

lemma seq_loop_keeps_inv:
  "seq_inv n k stp current acc \<Longrightarrow>
     \<exists>stp' current'. seq_inv n k stp' current' (seq_loop n stp current acc) \<and>
        \<not> (current' < n \<and> stp' > 0)"
proof (induction n stp current acc rule: seq_loop.induct)
  case (1 n stp current acc)
  show ?case
  proof (cases "current < n \<and> stp > 0")
    case True
    then have c: "current < n" and s: "stp > 0" by simp_all
    from "1.IH"[OF True seq_inv_push[OF "1.prems" c s]] c s show ?thesis
      by (simp add: seq_loop_push)
  next
    case False
    with "1.prems" show ?thesis by (auto simp: seq_loop_stop)
  qed
qed


lemma k_bounds: "0 < n \<Longrightarrow> 0 \<le> k_of n \<and> n \<le> (k_of n * (k_of n + 1)) div 2"
  unfolding k_of_def using kLocal_loop_ge[of n 0] kLocal_loop_mono[of 0 n] by simp

lemma two_n_le:
  "n \<le> (k * (k + 1)) div 2 \<Longrightarrow> 2 * n \<le> k * (k + (1::int))"
  by linarith

lemma seq_inv_exit:
  assumes inv: "seq_inv n k stp current r" and ex: "\<not> (current < n \<and> stp > 0)"
    and cover: "2 * n \<le> k * (k + 1)"
  shows "n \<le> current"
proof (rule ccontr)
  assume "\<not> n \<le> current"
  with ex have "stp \<le> 0" by simp
  moreover from inv have "0 \<le> stp" "2 * current + (stp - 1) * stp = k * (k + 1)"
    unfolding seq_inv_def by blast+
  ultimately have "2 * current = k * (k + 1)" by simp
  with cover \<open>\<not> n \<le> current\<close> show False by simp
qed

lemma seq_inv_start: "0 \<le> k \<Longrightarrow> seq_inv n k k k []"
  by (simp add: seq_inv_def algebra_simps)

lemma seq_loop_shape:
  assumes n: "0 < n"
  defines "k \<equiv> k_of n"
  defines "r \<equiv> seq_loop n k k []"
  shows "int (length r) \<le> k"
    and "\<forall>i. Suc i < length r \<longrightarrow> r ! Suc i - r ! i = k - int (Suc i)"
    and "\<forall>x \<in> set r. x < n"
    and "r \<noteq> [] \<Longrightarrow> hd r = k \<and> n \<le> last r + (k - int (length r))"
    and "r = [] \<Longrightarrow> n \<le> k"
proof -
  from k_bounds[OF n] have k0: "0 \<le> k" and cov: "n \<le> (k * (k + 1)) div 2"
    by (simp_all add: k_def)
  from cov have cover: "2 * n \<le> k * (k + 1)" by (rule two_n_le)
  from seq_loop_keeps_inv[OF seq_inv_start[OF k0], of n]
  obtain stp' current' where inv: "seq_inv n k stp' current' r"
    and ex: "\<not> (current' < n \<and> stp' > 0)"
    by (auto simp: r_def)
  from seq_inv_exit[OF inv ex cover] have c: "n \<le> current'" .
  from inv have i0: "0 \<le> stp'" and i1: "stp' = k - int (length r)"
    and i2: "r = [] \<longrightarrow> current' = k"
    and i3: "r \<noteq> [] \<longrightarrow> current' = last r + stp' \<and> hd r = k"
    and i4: "\<forall>i. Suc i < length r \<longrightarrow> r ! Suc i - r ! i = k - int (Suc i)"
    and i5: "\<forall>x \<in> set r. x < n"
    unfolding seq_inv_def by blast+
  from i0 i1 show "int (length r) \<le> k" by simp
  from i4 show "\<forall>i. Suc i < length r \<longrightarrow> r ! Suc i - r ! i = k - int (Suc i)" .
  from i5 show "\<forall>x \<in> set r. x < n" .
  { assume "r \<noteq> []"
    with i3 i1 c show "hd r = k \<and> n \<le> last r + (k - int (length r))" by simp }
  { assume "r = []"
    with i2 c show "n \<le> k" by simp }
qed


lemma planned_sequence_loop:
  "0 < n \<Longrightarrow> seq_loop n (k_of n) (k_of n) [] \<noteq> [] \<Longrightarrow>
     planned_sequence n = seq_loop n (k_of n) (k_of n) []"
  by (simp add: planned_sequence_def Let_def)

lemma planned_sequence_degenerate:
  "0 < n \<Longrightarrow> seq_loop n (k_of n) (k_of n) [] = [] \<Longrightarrow>
     planned_sequence n = [min (k_of n) (n - 1)]"
  by (simp add: planned_sequence_def Let_def)

lemma gaps_sorted:
  fixes r :: "int list"
  assumes "int (length r) \<le> k"
    and "\<forall>i. Suc i < length r \<longrightarrow> r ! Suc i - r ! i = k - int (Suc i)"
  shows "sorted_wrt (<) r"
proof -
  have "\<forall>i. Suc i < length r \<longrightarrow> r ! i < r ! Suc i"
  proof (intro allI impI)
    fix i assume a: "Suc i < length r"
    with assms(2) have "r ! Suc i - r ! i = k - int (Suc i)" by blast
    moreover from a assms(1) have "int (Suc i) < k" by simp
    ultimately show "r ! i < r ! Suc i" by simp
  qed
  then show ?thesis by (simp add: sorted_wrt_iff_nth_Suc_transp)
qed

lemma gaps_list:
  fixes r :: "int list"
  assumes "\<forall>i. Suc i < length r \<longrightarrow> r ! Suc i - r ! i = k - int (Suc i)"
  shows "successive_gaps r = map (\<lambda>i. k - 1 - int i) [0..<length r - 1]"
  unfolding successive_gaps_def using assms by simp

text \<open>
  Claim C4, amended. For every \<open>n > 0\<close> the planned sequence is not empty and strictly
  increasing, its successive gaps are \<open>k - 1, k - 2, \<dots>\<close>, and every entry is below \<open>n\<close>,
  so the last one is at most \<open>n - 1\<close>. When the loop pushes nothing, the sequence is
  the single entry \<open>min k (n - 1)\<close>, which is \<open>n - 1\<close>. Otherwise the first entry is \<open>k\<close>
  and the probe that would follow the last one is at or above \<open>n\<close>: the last entry plus
  the next gap \<open>k - length\<close> reaches \<open>n\<close>, while the last entry itself may stay below
  \<open>n - 1\<close>.
\<close>

theorem planned_sequence_shape:
  "0 < n \<Longrightarrow>
     sequence (plan n state) = planned_sequence n \<and>
     planned_sequence n \<noteq> [] \<and>
     sorted_wrt (<) (planned_sequence n) \<and>
     successive_gaps (planned_sequence n) =
       map (\<lambda>i. k_of n - 1 - int i) [0..<length (planned_sequence n) - 1] \<and>
     last (planned_sequence n) \<le> n - 1 \<and>
     (if seq_loop n (k_of n) (k_of n) [] = []
      then planned_sequence n = [min (k_of n) (n - 1)] \<and> min (k_of n) (n - 1) = n - 1
      else hd (planned_sequence n) = k_of n \<and>
           n \<le> last (planned_sequence n) + (k_of n - int (length (planned_sequence n))))"
proof -
  assume n: "0 < n"
  let ?r = "seq_loop n (k_of n) (k_of n) []"
  note sh = seq_loop_shape[OF n]
  from n have p: "sequence (plan n state) = planned_sequence n" by (simp add: plan_def)
  show ?thesis
  proof (cases "?r = []")
    case True
    from sh(5)[OF True] have "min (k_of n) (n - 1) = n - 1" by simp
    with True planned_sequence_degenerate[OF n True] p show ?thesis
      by (simp add: successive_gaps_def)
  next
    case False
    from planned_sequence_loop[OF n False] have e: "planned_sequence n = ?r" .
    from False have "last ?r \<in> set ?r" by (rule last_in_set)
    with sh(3) have l: "last ?r \<le> n - 1" by fastforce
    from gaps_sorted[OF sh(1) sh(2)] gaps_list[OF sh(2)] sh(4)[OF False] l False e p
    show ?thesis by simp
  qed
qed

text \<open>
  Claim C4, as the spec states it: the last element of the planned sequence is at least
  \<open>n - 1\<close>. For \<open>n = 5\<close> the planner gives \<open>k = 3\<close> and the sequence \<open>[3]\<close>, whose last
  element is below \<open>4\<close>.
\<close>

theorem planned_sequence_shape_counterexample:
  "\<not> (5 - 1 \<le> last (sequence (plan 5 initial_state)))"
  by code_simp

theorem planned_sequence_shape_witness:
  "(0::int) < 10 \<and>
     sequence (plan 10 initial_state) = planned_sequence 10 \<and>
     planned_sequence 10 = [4, 7, 9] \<and>
     sorted_wrt (<) (planned_sequence 10) \<and>
     successive_gaps (planned_sequence 10) =
       map (\<lambda>i. k_of 10 - 1 - int i) [0..<length (planned_sequence 10) - 1] \<and>
     last (planned_sequence 10) \<le> 10 - 1 \<and>
     seq_loop 10 (k_of 10) (k_of 10) [] \<noteq> [] \<and>
     hd (planned_sequence 10) = k_of 10 \<and>
     10 \<le> last (planned_sequence 10) + (k_of 10 - int (length (planned_sequence 10)))"
proof -
  have a: "planned_sequence 10 = [4, 7, 9]" by code_simp
  have b: "seq_loop 10 (k_of 10) (k_of 10) [] \<noteq> []" by code_simp
  from planned_sequence_shape[of 10 initial_state] a b show ?thesis by simp
qed

section \<open>The two phases of the stepper\<close>

lemma run_steps_finished: "finished state \<Longrightarrow> run_steps secretF state = state"
  by (subst run_steps.simps) simp

lemma run_steps_unfold:
  "\<not> finished state \<Longrightarrow> run_steps secretF state = run_steps secretF (snd (step secretF state))"
  by (subst run_steps.simps) simp

lemma findIndex_take:
  "findIndex P xs = int i \<Longrightarrow> findIndex P (take (Suc i) xs) = int i"
proof (induction xs arbitrary: i)
  case Nil
  then show ?case by simp
next
  case (Cons x xs)
  show ?case
  proof (cases "P x")
    case True
    with Cons.prems show ?thesis by simp
  next
    case False
    with Cons.prems findIndex_range[of P xs] obtain j where j: "i = Suc j" "findIndex P xs = int j"
      by (cases i) (auto simp: Let_def split: if_splits)
    from Cons.IH[OF j(2)] j False show ?thesis by (simp add: Let_def)
  qed
qed

lemma findIndex_before_nat:
  "findIndex P xs = int i \<Longrightarrow> m < i \<Longrightarrow> \<not> P (xs ! m)"
  using findIndex_before[of "int m" P xs] by simp

lemma findIndex_take_none:
  "findIndex P xs = int i \<Longrightarrow> j \<le> i \<Longrightarrow> findIndex P (take j xs) = -1"
proof -
  assume a: "findIndex P xs = int i" "j \<le> i"
  have "\<forall>x \<in> set (take j xs). \<not> P x"
  proof
    fix x assume "x \<in> set (take j xs)"
    then obtain m where m: "m < length (take j xs)" "x = take j xs ! m"
      by (auto simp: in_set_conv_nth)
    then have "m < j" "x = xs ! m" by simp_all
    with a findIndex_before[of "int m" P xs] show "\<not> P x" by simp
  qed
  then show ?thesis by (simp add: findIndex_none_iff)
qed

text \<open>Phase 1 of the stepper walks the planned sequence up to the first probe that breaks.\<close>

lemma run_steps_descend:
  assumes "findIndex (testBreaks secretF) (sequence state) = int i"
    and "\<not> finished state" and "j \<le> Suc i" and "drops state = take j (sequence state)"
  shows "run_steps secretF state =
         run_steps secretF (state\<lparr>drops := take (Suc i) (sequence state),
                                   totalDrops := totalDrops state + int (Suc i - j)\<rparr>)"
  using assms
proof (induction "Suc i - j" arbitrary: j state)
  case 0
  with "0.prems"(3) have "j = Suc i" by simp
  with "0.prems"(4)
  have "state\<lparr>drops := take (Suc i) (sequence state),
             totalDrops := totalDrops state + int (Suc i - j)\<rparr> = state"
    by (cases state) simp
  then show ?case by simp
next
  case (Suc d)
  then have j: "j \<le> i" by simp
  let ?sq = "sequence state"
  from findIndex_range[of "testBreaks secretF" ?sq] Suc.prems(1)
  have len: "i < length ?sq" by simp
  from findIndex_take_none[OF Suc.prems(1) j] Suc.prems(4)
  have none: "findIndex (testBreaks secretF) (drops state) = -1" by simp
  from len j have tk: "take j ?sq @ [?sq ! j] = take (Suc j) ?sq"
    by (simp add: take_Suc_conv_app_nth)
  from none len j Suc.prems(2,4) tk
  have st: "snd (step secretF state) =
      state\<lparr>drops := take (Suc j) ?sq, totalDrops := totalDrops state + 1\<rparr>"
    by (simp add: step_def Let_def)
  let ?s = "state\<lparr>drops := take (Suc j) ?sq, totalDrops := totalDrops state + 1\<rparr>"
  from Suc.hyps(2) have d: "d = Suc i - Suc j" by simp
  from j Suc.prems have ih:
    "run_steps secretF ?s =
       run_steps secretF (?s\<lparr>drops := take (Suc i) (sequence ?s),
                                   totalDrops := totalDrops ?s + int (Suc i - Suc j)\<rparr>)"
    by (intro Suc.hyps(1)[OF d]) simp_all
  from j have "totalDrops state + 1 + int (Suc i - Suc j) = totalDrops state + int (Suc i - j)"
    by simp
  then have upd: "?s\<lparr>drops := take (Suc i) (sequence ?s),
                       totalDrops := totalDrops ?s + int (Suc i - Suc j)\<rparr> =
        state\<lparr>drops := take (Suc i) ?sq, totalDrops := totalDrops state + int (Suc i - j)\<rparr>"
    by simp
  have "run_steps secretF state = run_steps secretF (snd (step secretF state))"
    using Suc.prems(2) by (rule run_steps_unfold)
  also have "\<dots> = run_steps secretF ?s" by (simp only: st)
  also note ih
  also note upd
  finally show ?case .
qed


lemma step_scan_found:
  assumes "\<not> finished state" "findIndex (testBreaks secretF) (drops state) \<noteq> -1"
    and "nextLinear_of secretF state = secretF" "secretF \<le> breakFloor_of secretF state"
  shows "snd (step secretF state) =
           state\<lparr>drops := drops state @ [secretF], totalDrops := totalDrops state + 1,
                 foundFloor := Some secretF, finished := True\<rparr>"
  using assms
  by (simp add: step_def Let_def nextLinear_of_def breakFloor_of_def testBreaks_def)

lemma step_scan_safe:
  assumes "\<not> finished state" "findIndex (testBreaks secretF) (drops state) \<noteq> -1"
    and "nextLinear_of secretF state < secretF" "secretF \<le> breakFloor_of secretF state"
  shows "snd (step secretF state) =
           state\<lparr>drops := drops state @ [nextLinear_of secretF state],
                 totalDrops := totalDrops state + 1\<rparr>"
  using assms
  by (simp add: step_def Let_def nextLinear_of_def breakFloor_of_def testBreaks_def)

lemma scan_state_after_safe:
  assumes "findIndex (testBreaks secretF) (drops state) \<noteq> -1"
    and "nextLinear_of secretF state < secretF"
    and "state' = state\<lparr>drops := drops state @ [nextLinear_of secretF state],
                 totalDrops := totalDrops state + 1\<rparr>"
  shows "findIndex (testBreaks secretF) (drops state') \<noteq> -1"
    and "nextLinear_of secretF state' = nextLinear_of secretF state + 1"
    and "breakFloor_of secretF state' = breakFloor_of secretF state"
proof -
  let ?bi = "findIndex (testBreaks secretF) (drops state)"
  from findIndex_range[of "testBreaks secretF" "drops state"] assms(1)
  have b: "0 \<le> ?bi" "nat ?bi < length (drops state)" "nat (?bi - 1) < length (drops state)"
    by auto
  have same: "findIndex (testBreaks secretF) (drops state') = ?bi"
    using assms(1,3) by (simp add: findIndex_append)
  with assms(1) show "findIndex (testBreaks secretF) (drops state') \<noteq> -1" by simp
  from same b assms(3) show "breakFloor_of secretF state' = breakFloor_of secretF state"
    by (simp add: breakFloor_of_def nth_append)
  have "nextLinear_of secretF state' =
     (if ?bi = 0 then -1 else drops state ! nat (?bi - 1)) + 1 +
       (int (length (drops state)) + 1 - (?bi + 1))"
    unfolding nextLinear_of_def Let_def same using b assms(3) by (simp add: nth_append)
  then show "nextLinear_of secretF state' = nextLinear_of secretF state + 1"
    by (simp add: nextLinear_of_def Let_def)
qed

text \<open>Phase 2 of the stepper scans up to the secret and stops there.\<close>

lemma run_steps_scan:
  assumes "\<not> finished state" "findIndex (testBreaks secretF) (drops state) \<noteq> -1"
    and "nextLinear_of secretF state \<le> secretF" "secretF \<le> breakFloor_of secretF state"
  shows "foundFloor (run_steps secretF state) = Some secretF \<and>
         totalDrops (run_steps secretF state) =
           totalDrops state + (secretF - nextLinear_of secretF state + 1)"
  using assms
proof (induction "nat (secretF - nextLinear_of secretF state)" arbitrary: state)
  case 0
  then have e: "nextLinear_of secretF state = secretF" by simp
  from step_scan_found[OF "0.prems"(1,2) e "0.prems"(4)] "0.prems"(1) e
  show ?case by (simp add: run_steps_unfold run_steps_finished)
next
  case (Suc d)
  then have lt: "nextLinear_of secretF state < secretF" by simp
  let ?s = "state\<lparr>drops := drops state @ [nextLinear_of secretF state],
                 totalDrops := totalDrops state + 1\<rparr>"
  from step_scan_safe[OF Suc.prems(1,2) lt Suc.prems(4)]
  have st: "snd (step secretF state) = ?s" .
  note after = scan_state_after_safe[OF Suc.prems(2) lt refl]
  from Suc.hyps(2) after(2) have d: "d = nat (secretF - nextLinear_of secretF ?s)" by simp
  from Suc.prems(1) have nf: "\<not> finished ?s" by simp
  from lt after(2) have le: "nextLinear_of secretF ?s \<le> secretF" by simp
  from Suc.prems(4) after(3) have bf: "secretF \<le> breakFloor_of secretF ?s" by simp
  from Suc.hyps(1)[OF d nf after(1) le bf] after(2)
  have "foundFloor (run_steps secretF ?s) = Some secretF \<and>
         totalDrops (run_steps secretF ?s) =
           totalDrops state + (secretF - nextLinear_of secretF state + 1)"
    by simp
  moreover have "run_steps secretF state = run_steps secretF ?s"
    using run_steps_unfold[OF Suc.prems(1), of secretF] st by simp
  ultimately show ?case by simp
qed


text \<open>Without a breaking probe the stepper walks the whole plan and then only finishes.\<close>

lemma run_steps_exhaust:
  assumes "findIndex (testBreaks secretF) (sequence state) = -1"
    and "\<not> finished state" and "j \<le> length (sequence state)"
    and "drops state = take j (sequence state)"
  shows "run_steps secretF state =
         state\<lparr>drops := sequence state,
               totalDrops := totalDrops state + int (length (sequence state) - j),
               finished := True\<rparr>"
  using assms
proof (induction "length (sequence state) - j" arbitrary: j state)
  case 0
  let ?sq = "sequence state"
  from 0 have d: "drops state = ?sq" by simp
  with "0.prems"(1,2) have "snd (step secretF state) = state\<lparr>finished := True\<rparr>"
    by (simp add: step_def Let_def)
  with "0.prems"(2) have "run_steps secretF state = state\<lparr>finished := True\<rparr>"
    by (simp add: run_steps_unfold run_steps_finished)
  moreover from d 0 have "state\<lparr>drops := ?sq,
      totalDrops := totalDrops state + int (length ?sq - j), finished := True\<rparr> =
      state\<lparr>finished := True\<rparr>"
    by (cases state) simp
  ultimately show ?case by simp
next
  case (Suc d)
  let ?sq = "sequence state"
  from Suc.hyps(2) have lt: "j < length ?sq" by simp
  from Suc.prems(1) have "\<forall>x \<in> set ?sq. \<not> testBreaks secretF x"
    by (simp add: findIndex_none_iff)
  moreover have "set (take j ?sq) \<subseteq> set ?sq" by (rule set_take_subset)
  ultimately have none: "findIndex (testBreaks secretF) (drops state) = -1"
    using Suc.prems(4) by (auto simp: findIndex_none_iff)
  from lt have tk: "take j ?sq @ [?sq ! j] = take (Suc j) ?sq"
    by (simp add: take_Suc_conv_app_nth)
  from none lt Suc.prems(2,4) tk
  have st: "snd (step secretF state) =
      state\<lparr>drops := take (Suc j) ?sq, totalDrops := totalDrops state + 1\<rparr>"
    by (simp add: step_def Let_def)
  let ?s = "state\<lparr>drops := take (Suc j) ?sq, totalDrops := totalDrops state + 1\<rparr>"
  from Suc.hyps(2) have d: "d = length (sequence ?s) - Suc j" by simp
  from lt Suc.prems have ih:
    "run_steps secretF ?s =
       ?s\<lparr>drops := sequence ?s,
           totalDrops := totalDrops ?s + int (length (sequence ?s) - Suc j),
           finished := True\<rparr>"
    by (intro Suc.hyps(1)[OF d]) simp_all
  from lt have "totalDrops state + 1 + int (length ?sq - Suc j) =
      totalDrops state + int (length ?sq - j)"
    by simp
  then have upd: "?s\<lparr>drops := sequence ?s,
           totalDrops := totalDrops ?s + int (length (sequence ?s) - Suc j),
           finished := True\<rparr> =
        state\<lparr>drops := ?sq, totalDrops := totalDrops state + int (length ?sq - j),
              finished := True\<rparr>"
    by simp
  have "run_steps secretF state = run_steps secretF (snd (step secretF state))"
    using Suc.prems(2) by (rule run_steps_unfold)
  also have "\<dots> = run_steps secretF ?s" by (simp only: st)
  also note ih
  also note upd
  finally show ?case .
qed

lemma scan_bracket_total:
  "lin \<le> secretF \<Longrightarrow> secretF \<le> f \<Longrightarrow>
     fst (snd (scan_bracket secretF f lin simDrops tot)) = tot + (secretF - lin + 1)"
proof (induction secretF f lin simDrops tot rule: scan_bracket.induct)
  case (1 secretF f lin simDrops tot)
  from "1.prems" have le: "lin \<le> f" by simp
  show ?case
  proof (cases "testBreaks secretF lin")
    case True
    with "1.prems" have "lin = secretF" by (simp add: testBreaks_def)
    with le True show ?thesis by (simp add: scan_bracket_hit)
  next
    case False
    then have "lin + 1 \<le> secretF" by (simp add: testBreaks_def)
    from "1.IH"[OF le False this "1.prems"(2)] le False show ?thesis
      by (simp add: scan_bracket_miss)
  qed
qed

lemma first_phase_total:
  "findIndex (testBreaks secretF) sq = int i \<Longrightarrow> j \<le> i \<Longrightarrow> 0 \<le> secretF \<Longrightarrow>
     fst (snd (first_phase secretF sq j simDrops tot)) =
       tot + int (Suc i - j) + (secretF - (if i = 0 then -1 else sq ! (i - 1)))"
proof (induction secretF sq j simDrops tot rule: first_phase.induct)
  case (1 secretF sq j simDrops tot)
  let ?P = "testBreaks secretF"
  from findIndex_range[of ?P sq] "1.prems"(1) have len: "i < length sq" by simp
  with "1.prems"(2) have lt: "j < length sq" by simp
  from "1.prems"(1) findIndex_nth[of ?P sq] have Pi: "?P (sq ! i)" by simp
  show ?case
  proof (cases "?P (sq ! j)")
    case True
    have "j = i"
    proof (rule ccontr)
      assume "j \<noteq> i"
      with "1.prems"(2) have "j < i" by simp
      with "1.prems"(1) have "\<not> ?P (sq ! j)" by (rule findIndex_before_nat)
      with True show False by simp
    qed
    have lo: "(if i = 0 then -1 else sq ! (i - 1)) + 1 \<le> secretF"
    proof (cases "i = 0")
      case True
      with "1.prems"(3) show ?thesis by simp
    next
      case False
      then have "i - 1 < i" by simp
      with "1.prems"(1) have "\<not> ?P (sq ! (i - 1))" by (rule findIndex_before_nat)
      with False show ?thesis by (simp add: testBreaks_def)
    qed
    from Pi have hi: "secretF \<le> sq ! i" by (simp add: testBreaks_def)
    from scan_bracket_total[OF lo hi] lt True \<open>j = i\<close> show ?thesis
      by (simp add: first_phase_hit)
  next
    case False
    with Pi have "j \<noteq> i" by auto
    with "1.prems"(2) have sj: "j + 1 \<le> i" by simp
    then have "1 + int (Suc i - (j + 1)) = int (Suc i - j)" by simp
    with "1.IH"[OF lt False "1.prems"(1) sj "1.prems"(3)] lt False show ?thesis
      by (simp add: first_phase_miss)
  qed
qed


lemma findIndex_some:
  "findIndex P xs \<noteq> -1 \<Longrightarrow> \<exists>i. findIndex P xs = int i \<and> i < length xs"
  using findIndex_range[of P xs] by (auto intro: exI[of _ "nat (findIndex P xs)"])

lemma run_steps_when_probe_breaks:
  assumes nf: "\<not> finished state" and fresh: "drops state = []"
    and fi: "findIndex (testBreaks secretF) (sequence state) = int i"
    and nonneg: "0 \<le> secretF"
  shows "foundFloor (run_steps secretF state) = Some secretF \<and>
         totalDrops (run_steps secretF state) =
           totalDrops state + int (Suc i) +
             (secretF - (if i = 0 then -1 else sequence state ! (i - 1)))"
proof -
  let ?P = "testBreaks secretF"
  let ?sq = "sequence state"
  let ?s = "state\<lparr>drops := take (Suc i) ?sq, totalDrops := totalDrops state + int (Suc i - 0)\<rparr>"
  from findIndex_some[of ?P ?sq] fi have len: "i < length ?sq" by simp
  from fresh have "drops state = take 0 ?sq" by simp
  from run_steps_descend[OF fi nf _ this]
  have e: "run_steps secretF state = run_steps secretF ?s" by simp
  have bi: "findIndex ?P (drops ?s) = int i" using findIndex_take[OF fi] by simp
  from len have l: "length (drops ?s) = Suc i" by simp
  have prev: "(if int i = 0 then -1 else drops ?s ! nat (int i - 1)) =
              (if i = 0 then -1 else ?sq ! (i - 1))"
    by (cases i) (simp_all add: nat_diff_distrib)
  have nl: "nextLinear_of secretF ?s = (if i = 0 then -1 else ?sq ! (i - 1)) + 1"
    unfolding nextLinear_of_def Let_def bi prev l by simp
  have bf: "breakFloor_of secretF ?s = ?sq ! i"
    unfolding breakFloor_of_def bi by simp
  have lo: "nextLinear_of secretF ?s \<le> secretF"
  proof (cases "i = 0")
    case True
    with nl nonneg show ?thesis by simp
  next
    case False
    then have "i - 1 < i" by simp
    with fi have "\<not> ?P (?sq ! (i - 1))" by (rule findIndex_before_nat)
    with False nl show ?thesis by (simp add: testBreaks_def)
  qed
  from findIndex_nth[of ?P ?sq] fi have "?P (?sq ! i)" by simp
  with bf have hi: "secretF \<le> breakFloor_of secretF ?s" by (simp add: testBreaks_def)
  from nf have nf': "\<not> finished ?s" by simp
  from bi have ne: "findIndex ?P (drops ?s) \<noteq> -1" by simp
  from run_steps_scan[OF nf' ne lo hi] e nl show ?thesis by simp
qed

lemma runAll_total_when_probe_breaks:
  assumes fi: "findIndex (testBreaks secretF) (sequence state) = int i"
    and nonneg: "0 \<le> secretF"
  shows "totalDrops (snd (runAll n secretF state)) =
           int (Suc i) + (secretF - (if i = 0 then -1 else sequence state ! (i - 1)))"
proof -
  let ?P = "testBreaks secretF"
  let ?fp = "first_phase secretF (sequence state) 0 [] 0"
  from findIndex_some[of ?P "sequence state"] fi have len: "i < length (sequence state)" by simp
  from findIndex_nth[of ?P "sequence state"] fi have Pi: "?P (sequence state ! i)" by simp
  from len have mem: "sequence state ! i \<in> set (sequence state)" by (rule nth_mem)
  have "\<not> (\<forall>x \<in> set (sequence state). x < secretF)"
  proof
    assume "\<forall>x \<in> set (sequence state). x < secretF"
    with mem have "sequence state ! i < secretF" by blast
    with Pi show False by (simp add: testBreaks_def)
  qed
  with first_phase_finds[OF nonneg, of 0 "sequence state" "[]" 0]
  have "snd (snd ?fp) = Some secretF" by auto
  with first_phase_total[OF fi _ nonneg, of 0 "[]" 0] show ?thesis
    by (simp add: runAll_def Let_def split_beta)
qed

section \<open>Stepping against the batch solve\<close>

text \<open>
  Claim C2 says that stepping until \<open>finished\<close> and one \<^verbatim>\<open>runAll()\<close> give the same
  \<open>foundFloor\<close> and \<open>totalDrops\<close>. For \<open>n = 5\<close>, \<open>secretF = 4\<close> the planned sequence is
  \<open>[3]\<close> and its only probe does not break: \<^verbatim>\<open>step()\<close> then finishes with one drop and
  no found floor, while \<^verbatim>\<open>runAll()\<close> goes on to floor 4 and finds it with two drops.
\<close>

theorem step_driver_misses_fallback:
  "foundFloor (run_steps 4 (plan 5 initial_state)) = None \<and>
   totalDrops (run_steps 4 (plan 5 initial_state)) = 1 \<and>
   finished (run_steps 4 (plan 5 initial_state)) \<and>
   foundFloor (snd (runAll 5 4 (plan 5 initial_state))) = Some 4 \<and>
   totalDrops (snd (runAll 5 4 (plan 5 initial_state))) = 2"
  by code_simp

text \<open>
  On a freshly planned state and a valid secret, stepping until finished and the batch
  solve agree on \<open>foundFloor\<close> and \<open>totalDrops\<close> exactly when some planned probe reaches
  the secret.
\<close>

lemma stepping_agrees_iff_probe_breaks:
  assumes "0 < n" "0 \<le> secretF" "secretF < n"
  shows "(foundFloor (run_steps secretF (plan n state)) =
            foundFloor (snd (runAll n secretF (plan n state))) \<and>
          totalDrops (run_steps secretF (plan n state)) =
            totalDrops (snd (runAll n secretF (plan n state))))
         \<longleftrightarrow> (\<exists>x \<in> set (planned_sequence n). secretF \<le> x)"
proof -
  let ?P = "testBreaks secretF"
  let ?s = "plan n state"
  from assms(1) have s: "sequence ?s = planned_sequence n" "drops ?s = []"
    "\<not> finished ?s" "totalDrops ?s = 0" "foundFloor ?s = None"
    by (simp_all add: plan_def)
  show ?thesis
  proof (cases "findIndex ?P (sequence ?s) = -1")
    case True
    from run_steps_exhaust[OF True s(3), of 0] s
    have "foundFloor (run_steps secretF ?s) = None" by simp
    moreover from runAll_finds[OF assms(2,3), of ?s]
    have "foundFloor (snd (runAll n secretF ?s)) = Some secretF" by simp
    moreover from True s(1) have "\<not> (\<exists>x \<in> set (planned_sequence n). secretF \<le> x)"
      by (simp add: findIndex_none_iff testBreaks_def)
    ultimately show ?thesis by simp
  next
    case False
    from findIndex_some[OF False] obtain i where i: "findIndex ?P (sequence ?s) = int i"
      by blast
    from run_steps_when_probe_breaks[OF s(3) s(2) i assms(2)]
      runAll_total_when_probe_breaks[OF i assms(2), of n]
      runAll_finds[OF assms(2,3), of ?s] s(4)
    have "foundFloor (run_steps secretF ?s) = foundFloor (snd (runAll n secretF ?s)) \<and>
          totalDrops (run_steps secretF ?s) = totalDrops (snd (runAll n secretF ?s))"
      by simp
    moreover from False s(1) have "\<exists>x \<in> set (planned_sequence n). secretF \<le> x"
      by (simp add: findIndex_none_iff testBreaks_def)
    ultimately show ?thesis by simp
  qed
qed

end
